theory Spec2Isabelle
  imports Main "HOL-Library.Word" "HOL-Library.Sublist"
begin

section \<open>Bytes, constants and the library calls of \<^verbatim>\<open>fix_timelapse.py\<close>\<close>

type_synonym byte = "8 word"
type_synonym bytes = "byte list"

text \<open>The three module constants (lines 23 to 28 of the source).\<close>

definition SPS :: bytes where
  "SPS = [0x67, 0x64, 0x00, 0x28, 0xac, 0xd9, 0x40, 0x78, 0x02, 0x27, 0xe5, 0xc0, 0x5a, 0x81,
          0x01, 0x02, 0xa0, 0x00, 0x00, 0x03, 0x00, 0x20, 0x00, 0x00, 0x06, 0x01, 0xe3, 0x06,
          0x32, 0xc0]"

definition PPS :: bytes where
  "PPS = [0x68, 0xea, 0xe3, 0xcb, 0x22, 0xc0]"

definition START_CODE :: bytes where
  "START_CODE = [0x00, 0x00, 0x00, 0x01]"

text \<open>
  The exceptions that the calls of the source can raise. \<open>OSError\<close> stands for
  \<^verbatim>\<open>IOError\<close> as well (one class in Python 3); \<open>StructError\<close> is
  \<^verbatim>\<open>struct.error\<close>; \<open>ValueError\<close> is what \<^verbatim>\<open>seek\<close> raises for an offset that does
  not fit a signed 64-bit file offset, and what \<^verbatim>\<open>subprocess.run\<close> raises when the output
  of the process cannot be decoded as text (\<^verbatim>\<open>UnicodeDecodeError\<close> is one);
  \<open>SubprocessError\<close> is \<^verbatim>\<open>subprocess.SubprocessError\<close>. Only the first is an
  \<^verbatim>\<open>OSError\<close>. \<^verbatim>\<open>KeyboardInterrupt\<close> is asynchronous and is not modelled.
\<close>

datatype exn = OSError | StructError | ValueError | SubprocessError

text \<open>Big-endian unsigned decoding, as \<^verbatim>\<open>struct.unpack\<close> does for \<^verbatim>\<open>>I\<close> and \<^verbatim>\<open>>Q\<close>.\<close>

definition be_uint :: "bytes \<Rightarrow> nat" where
  "be_uint b = foldl (\<lambda>acc x. acc * 256 + unat x) 0 b"

definition unpack_I :: "bytes \<Rightarrow> exn + nat" where
  "unpack_I b = (if length b = 4 then Inr (be_uint b) else Inl StructError)"

definition unpack_Q :: "bytes \<Rightarrow> exn + nat" where
  "unpack_Q b = (if length b = 8 then Inr (be_uint b) else Inl StructError)"

definition unpack_I4s :: "bytes \<Rightarrow> exn + nat \<times> bytes" where
  "unpack_I4s b = (if length b = 8 then Inr (be_uint (take 4 b), drop 4 b) else Inl StructError)"

text \<open>
  \<^verbatim>\<open>atom_type.decode("ascii", errors="ignore")\<close> drops every byte above 127 and maps the
  others to the character of the same code; a name is kept as the list of its codes, so
  that \<^verbatim>\<open>"mdat"\<close> is \<open>mdat\<close> below.
\<close>

definition decode_ascii_ignore :: "bytes \<Rightarrow> bytes" where
  "decode_ascii_ignore b = filter (\<lambda>x. x < 0x80) b"

definition mdat :: bytes where
  "mdat = [0x6d, 0x64, 0x61, 0x74]"

subsection \<open>The two open files\<close>

text \<open>
  One run has the input file \<open>bs\<close> (never written), the read cursor of \<^verbatim>\<open>f_in\<close>, and
  the arguments of the \<^verbatim>\<open>f_out.write\<close> calls made so far, in order; the content of the
  temporary file is their concatenation. Every call on one of the two files is numbered
  in program order, and the storage is a schedule \<open>fails\<close>: call number \<open>k\<close> raises
  \<^verbatim>\<open>OSError\<close> when \<open>fails k\<close> holds.
\<close>

record session =
  in_pos :: nat
  out_log :: "bytes list"
  io_calls :: nat

definition no_faults :: "nat \<Rightarrow> bool" where
  "no_faults = (\<lambda>k. False)"

definition f_in_read :: "(nat \<Rightarrow> bool) \<Rightarrow> bytes \<Rightarrow> nat \<Rightarrow> session \<Rightarrow> exn + bytes \<times> session" where
  "f_in_read fails bs n s =
     (if fails (io_calls s) then Inl OSError
      else let d = take n (drop (in_pos s) bs)
           in Inr (d, s\<lparr>in_pos := in_pos s + length d, io_calls := Suc (io_calls s)\<rparr>))"

definition f_in_tell :: "(nat \<Rightarrow> bool) \<Rightarrow> session \<Rightarrow> exn + nat \<times> session" where
  "f_in_tell fails s =
     (if fails (io_calls s) then Inl OSError
      else Inr (in_pos s, s\<lparr>io_calls := Suc (io_calls s)\<rparr>))"

text \<open>
  \<^verbatim>\<open>f_in.seek(off, 1)\<close>: \<^verbatim>\<open>ValueError\<close> for an offset outside the signed 64-bit range,
  \<^verbatim>\<open>OSError\<close> for a target below 0 or beyond the largest file offset (a file system may
  refuse earlier than \<open>2 ^ 63\<close>; a target inside the file is always accepted), and a
  target past the end of the file is allowed.
\<close>

definition f_in_seek_cur :: "(nat \<Rightarrow> bool) \<Rightarrow> int \<Rightarrow> session \<Rightarrow> exn + session" where
  "f_in_seek_cur fails off s =
     (if off < - (2 ^ 63) \<or> 2 ^ 63 \<le> off then Inl ValueError
      else if fails (io_calls s) then Inl OSError
      else if int (in_pos s) + off < 0 \<or> 2 ^ 63 \<le> int (in_pos s) + off then Inl OSError
      else Inr (s\<lparr>in_pos := nat (int (in_pos s) + off), io_calls := Suc (io_calls s)\<rparr>))"

definition f_out_write :: "(nat \<Rightarrow> bool) \<Rightarrow> bytes \<Rightarrow> session \<Rightarrow> exn + session" where
  "f_out_write fails d s =
     (if fails (io_calls s) then Inl OSError
      else Inr (s\<lparr>out_log := out_log s @ [d], io_calls := Suc (io_calls s)\<rparr>))"

section \<open>The extraction loop (lines 92 to 125)\<close>

text \<open>
  Why the loop was left: the end of the file inside a length field, a length that fails
  the sanity check, a unit cut short by the end of the file, or an exception caught by
  the handler of line 124.
\<close>

datatype stop = EndOfPayload | SuspiciousLength nat | UnexpectedEOF | ExtractionError exn

function extract_nals :: "(nat \<Rightarrow> bool) \<Rightarrow> bytes \<Rightarrow> session \<Rightarrow> stop \<times> session" where
  "extract_nals fails bs s =
     (case f_in_read fails bs 4 s of
        Inl e \<Rightarrow> (ExtractionError e, s)
      | Inr (length_bytes, s1) \<Rightarrow>
          if length length_bytes < 4 then (EndOfPayload, s1)
          else (case unpack_I length_bytes of
                  Inl e \<Rightarrow> (ExtractionError e, s1)
                | Inr nal_len \<Rightarrow>
                    if nal_len > 20000000 \<or> nal_len = 0 then (SuspiciousLength nal_len, s1)
                    else (case f_in_read fails bs nal_len s1 of
                            Inl e \<Rightarrow> (ExtractionError e, s1)
                          | Inr (nal_data, s2) \<Rightarrow>
                              if length nal_data < nal_len then (UnexpectedEOF, s2)
                              else (case f_out_write fails START_CODE s2 of
                                      Inl e \<Rightarrow> (ExtractionError e, s2)
                                    | Inr s3 \<Rightarrow>
                                        (case f_out_write fails nal_data s3 of
                                           Inl e \<Rightarrow> (ExtractionError e, s3)
                                         | Inr s4 \<Rightarrow> extract_nals fails bs s4)))))"
  by pat_completeness auto
termination
proof (relation "measure (\<lambda>(fails, bs, s). length bs - in_pos s)")
  show "wf (measure (\<lambda>(fails, bs, s). length bs - in_pos s))"
    by simp
next
  fix fails bs s x length_bytes s1 nal_len y nal_data s2 s3 s4
  assume r1: "f_in_read fails bs 4 s = Inr x" "(length_bytes, s1) = x"
    and l4: "\<not> length length_bytes < 4"
    and r2: "f_in_read fails bs nal_len s1 = Inr y" "(nal_data, s2) = y"
    and w1: "f_out_write fails START_CODE s2 = Inr s3"
    and w2: "f_out_write fails nal_data s3 = Inr s4"
  from r1 have p1: "length_bytes = take 4 (drop (in_pos s) bs)" "in_pos s1 = in_pos s + length length_bytes"
    by (auto simp: f_in_read_def Let_def split: if_splits)
  from r2 have p2: "in_pos s2 = in_pos s1 + length nal_data"
    by (auto simp: f_in_read_def Let_def split: if_splits)
  from w1 w2 have p4: "in_pos s4 = in_pos s2"
    by (auto simp: f_out_write_def split: if_splits)
  from p1 l4 have "in_pos s + 4 \<le> length bs"
    by simp
  with p1 p2 p4 l4 show "((fails, bs, s4), (fails, bs, s)) \<in> measure (\<lambda>(fails, bs, s). length bs - in_pos s)"
    by simp
qed

declare extract_nals.simps [simp del]

section \<open>The box scanner (lines 62 to 139)\<close>

text \<open>
  How the \<^verbatim>\<open>with\<close> block ended: the scanner left its loop without the payload box, or
  the extraction loop ran and stopped, or an exception escaped the block.
\<close>

datatype ending = NotFound | Extracted stop | Escaped exn

datatype step = Continue session | Finish ending session

text \<open>
  The branch of lines 71 to 128, taken when the name is \<^verbatim>\<open>"mdat"\<close>: the offset is read for
  the message, the extended size is read when the size field is 1, and the extraction
  loop runs from there. It always leaves the scanner's loop.
\<close>

definition process_mdat :: "(nat \<Rightarrow> bool) \<Rightarrow> bytes \<Rightarrow> nat \<Rightarrow> session \<Rightarrow> step" where
  "process_mdat fails bs atom_size s1 =
     (case f_in_tell fails s1 of
        Inl e \<Rightarrow> Finish (Escaped e) s1
      | Inr (offset, s2) \<Rightarrow>
          if atom_size = 1 then
            (case f_in_read fails bs 8 s2 of
               Inl e \<Rightarrow> Finish (Escaped e) s2
             | Inr (large_size, s3) \<Rightarrow>
                 (case unpack_Q large_size of
                    Inl e \<Rightarrow> Finish (Escaped e) s3
                  | Inr atom_size' \<Rightarrow>
                      (case extract_nals fails bs s3 of
                         (why, s4) \<Rightarrow> Finish (Extracted why) s4)))
          else (case extract_nals fails bs s2 of
                  (why, s3) \<Rightarrow> Finish (Extracted why) s3))"

text \<open>The branch of lines 131 to 139, taken for any other name.\<close>

definition skip_atom :: "(nat \<Rightarrow> bool) \<Rightarrow> bytes \<Rightarrow> nat \<Rightarrow> session \<Rightarrow> step" where
  "skip_atom fails bs atom_size s1 =
     (if atom_size = 1 then
        (case f_in_read fails bs 8 s1 of
           Inl e \<Rightarrow> Finish (Escaped e) s1
         | Inr (large_size, s2) \<Rightarrow>
             (case unpack_Q large_size of
                Inl e \<Rightarrow> Finish (Escaped e) s2
              | Inr atom_size' \<Rightarrow>
                  (case f_in_seek_cur fails (int atom_size' - 16) s2 of
                     Inl e \<Rightarrow> Finish (Escaped e) s2
                   | Inr s3 \<Rightarrow> Continue s3)))
      else if atom_size = 0 then Finish NotFound s1
      else (case f_in_seek_cur fails (int atom_size - 8) s1 of
              Inl e \<Rightarrow> Finish (Escaped e) s1
            | Inr s2 \<Rightarrow> Continue s2))"

text \<open>One iteration of \<^verbatim>\<open>while True\<close> of line 62.\<close>

definition scan_step :: "(nat \<Rightarrow> bool) \<Rightarrow> bytes \<Rightarrow> session \<Rightarrow> step" where
  "scan_step fails bs s =
     (case f_in_read fails bs 8 s of
        Inl e \<Rightarrow> Finish (Escaped e) s
      | Inr (header, s1) \<Rightarrow>
          if length header < 8 then Finish NotFound s1
          else (case unpack_I4s header of
                  Inl e \<Rightarrow> Finish (Escaped e) s1
                | Inr (atom_size, atom_type) \<Rightarrow>
                    if decode_ascii_ignore atom_type = mdat
                    then process_mdat fails bs atom_size s1
                    else skip_atom fails bs atom_size s1))"

text \<open>
  The loop itself. Nothing in the source bounds the number of iterations, so the scanner
  is a partial function: \<open>None\<close> is a loop that never ends.
\<close>

partial_function (option) scan :: "(nat \<Rightarrow> bool) \<Rightarrow> bytes \<Rightarrow> session \<Rightarrow> (ending \<times> session) option" where
  "scan fails bs s =
     (case scan_step fails bs s of
        Continue s' \<Rightarrow> scan fails bs s'
      | Finish e s' \<Rightarrow> Some (e, s'))"

section \<open>\<^verbatim>\<open>recover_file\<close> (lines 31 to 181)\<close>

text \<open>
  The mux collaborator: \<^verbatim>\<open>subprocess.run\<close> returns the exit status of the process or
  raises (an \<^verbatim>\<open>OSError\<close> when the program cannot be started, a \<^verbatim>\<open>ValueError\<close> when its
  output cannot be decoded).
\<close>

datatype mux_result = Exit int | MuxRaised exn

datatype ret = Returned bool | Raised exn

text \<open>
  What one call of \<^verbatim>\<open>recover_file\<close> leaves behind: what it returned or raised, how the
  \<^verbatim>\<open>with\<close> block ended, the writes made to the temporary file, whether the mux step was
  invoked (on the concatenation of these writes), and whether the temporary file is still
  on disk at the end.
\<close>

record outcome =
  result :: ret
  ended :: ending
  writes :: "bytes list"
  muxed :: bool
  temp_left :: bool

text \<open>
  The handler of line 174: an \<^verbatim>\<open>OSError\<close> or a \<^verbatim>\<open>SubprocessError\<close> becomes
  \<^verbatim>\<open>return False\<close>, any other exception goes on to the caller.
\<close>

definition except_outer :: "exn \<Rightarrow> ret" where
  "except_outer e = (if e = OSError \<or> e = SubprocessError then Returned False else Raised e)"

text \<open>Lines 150 to 172: the mux step on the content of the temporary file.\<close>

definition run_mux :: "(bytes \<Rightarrow> mux_result) \<Rightarrow> bytes \<Rightarrow> ret" where
  "run_mux ffmpeg stream =
     (case ffmpeg stream of
        Exit returncode \<Rightarrow> Returned (returncode = 0)
      | MuxRaised x \<Rightarrow> except_outer x)"

text \<open>
  Lines 141 to 176, after the \<^verbatim>\<open>with\<close> block: the result, whether the mux step ran, and
  whether the temporary file exists when the \<^verbatim>\<open>finally\<close> clause is reached.
\<close>

definition after_with :: "(bytes \<Rightarrow> mux_result) \<Rightarrow> ending \<Rightarrow> session \<Rightarrow> ret \<times> bool \<times> bool" where
  "after_with ffmpeg e s =
     (case e of
        Escaped x \<Rightarrow> (except_outer x, False, True)
      | NotFound \<Rightarrow> (Returned False, False, False)
      | Extracted why \<Rightarrow> (run_mux ffmpeg (concat (out_log s)), True, True))"

text \<open>Lines 177 to 181: the temporary file is removed if it is there.\<close>

definition finally_clause :: "ending \<Rightarrow> session \<Rightarrow> ret \<times> bool \<times> bool \<Rightarrow> outcome" where
  "finally_clause e s r =
     (case r of (res, m, temp_exists) \<Rightarrow>
        \<lparr>result = res, ended = e, writes = out_log s, muxed = m,
         temp_left = (if temp_exists then False else temp_exists)\<rparr>)"

definition session0 :: session where
  "session0 = \<lparr>in_pos = 0, out_log = [], io_calls = 0\<rparr>"

text \<open>
  The \<^verbatim>\<open>with\<close> block of lines 54 to 139: the four writes of lines 56 to 59, then the
  scanner. An exception raised by one of the writes escapes the block.
\<close>

definition with_block :: "(nat \<Rightarrow> bool) \<Rightarrow> bytes \<Rightarrow> (ending \<times> session) option" where
  "with_block fails bs =
     (case f_out_write fails START_CODE session0 of
        Inl e \<Rightarrow> Some (Escaped e, session0)
      | Inr s1 \<Rightarrow>
          (case f_out_write fails SPS s1 of
             Inl e \<Rightarrow> Some (Escaped e, s1)
           | Inr s2 \<Rightarrow>
               (case f_out_write fails START_CODE s2 of
                  Inl e \<Rightarrow> Some (Escaped e, s2)
                | Inr s3 \<Rightarrow>
                    (case f_out_write fails PPS s3 of
                       Inl e \<Rightarrow> Some (Escaped e, s3)
                     | Inr s4 \<Rightarrow> scan fails bs s4))))"

definition recover_file :: "(nat \<Rightarrow> bool) \<Rightarrow> (bytes \<Rightarrow> mux_result) \<Rightarrow> bytes \<Rightarrow> outcome option" where
  "recover_file fails ffmpeg bs =
     (case with_block fails bs of
        None \<Rightarrow> None
      | Some (e, s) \<Rightarrow> Some (finally_clause e s (after_with ffmpeg e s)))"

section \<open>The command line (lines 184 to 199)\<close>

text \<open>
  \<^verbatim>\<open>str.rfind\<close> and \<^verbatim>\<open>os.path.splitext\<close> of the POSIX flavour: the extension starts at
  the last dot, if that dot comes after the last slash and after some character of the
  file name that is not a dot.
\<close>

definition rfind :: "char \<Rightarrow> string \<Rightarrow> int" where
  "rfind c p =
     (if c \<in> set p then int (length p) - 1 - int (length (takeWhile (\<lambda>x. x \<noteq> c) (rev p)))
      else - 1)"

definition splitext :: "string \<Rightarrow> string \<times> string" where
  "splitext p =
     (let sepIndex = rfind CHR ''/'' p; dotIndex = rfind CHR ''.'' p
      in if dotIndex > sepIndex \<and>
            list_ex (\<lambda>c. c \<noteq> CHR ''.'')
              (take (nat (dotIndex - (sepIndex + 1))) (drop (nat (sepIndex + 1)) p))
         then (take (nat dotIndex) p, drop (nat dotIndex) p)
         else (p, []))"

text \<open>
  What \<^verbatim>\<open>main\<close> does with \<^verbatim>\<open>sys.argv\<close>: it prints the usage and exits with status 1, or
  it calls \<^verbatim>\<open>recover_file\<close> on an input and an output path.
\<close>

datatype invocation = Usage | Recover string string

definition main :: "string list \<Rightarrow> invocation" where
  "main argv =
     (if length argv < 2 then Usage
      else let in_file = argv ! 1;
               out_file = (if length argv \<ge> 3 then argv ! 2
                           else fst (splitext in_file) @ ''_fixed.mp4'')
           in Recover in_file out_file)"

section \<open>Synthetic containers\<close>

text \<open>
  What the statements below are about: big-endian encoding, the length-prefixed framing
  of a unit in the payload, the sequence of writes that puts a start code before each
  unit, and boxes of the normal and of the extended form.
\<close>

fun be_bytes :: "nat \<Rightarrow> nat \<Rightarrow> bytes" where
  "be_bytes 0 n = []"
| "be_bytes (Suc k) n = be_bytes k (n div 256) @ [of_nat n]"

definition frame :: "bytes \<Rightarrow> bytes" where
  "frame u = be_bytes 4 (length u) @ u"

definition avcc :: "bytes list \<Rightarrow> bytes" where
  "avcc us = concat (map frame us)"

definition valid_unit :: "bytes \<Rightarrow> bool" where
  "valid_unit u \<longleftrightarrow> 1 \<le> length u \<and> length u \<le> 20000000"

definition annexb :: "bytes list \<Rightarrow> bytes list" where
  "annexb us = concat (map (\<lambda>u. [START_CODE, u]) us)"

datatype box = Box bytes bytes | LargeBox bytes bytes

fun encode_box :: "box \<Rightarrow> bytes" where
  "encode_box (Box ty body) = be_bytes 4 (8 + length body) @ ty @ body"
| "encode_box (LargeBox ty body) = be_bytes 4 1 @ ty @ be_bytes 8 (16 + length body) @ body"

fun skippable :: "box \<Rightarrow> bool" where
  "skippable (Box ty body) \<longleftrightarrow>
     length ty = 4 \<and> decode_ascii_ignore ty \<noteq> mdat \<and> 8 + length body < 2 ^ 32"
| "skippable (LargeBox ty body) \<longleftrightarrow>
     length ty = 4 \<and> decode_ascii_ignore ty \<noteq> mdat \<and> 16 + length body < 2 ^ 64"

text \<open>
  The header of a payload box: four size bytes, the tag, and eight more bytes exactly
  when the size field is 1. The declared size is otherwise free.
\<close>

definition payload_header :: "bytes \<Rightarrow> bool" where
  "payload_header h \<longleftrightarrow>
     8 \<le> length h \<and> take 4 (drop 4 h) = mdat \<and>
     length h = (if be_uint (take 4 h) = 1 then 16 else 8)"

text \<open>A file: some boxes, the header of the payload box, and the bytes that follow it.\<close>

definition container :: "box list \<Rightarrow> bytes \<Rightarrow> bytes \<Rightarrow> bytes" where
  "container bxs h payload = concat (map encode_box bxs) @ h @ payload"

section \<open>Storage and mux behaviours used in examples\<close>

text \<open>
  A well-formed file of 43 bytes: a box \<^verbatim>\<open>ftyp\<close> of size 10, the payload box \<^verbatim>\<open>mdat\<close> of
  declared size 17 that holds one record of five bytes, a box \<^verbatim>\<open>moov\<close> of size 8 and a box
  \<^verbatim>\<open>free\<close> of size 8.
\<close>

definition faststart_last :: bytes where
  "faststart_last =
     [0x00, 0x00, 0x00, 0x0a, 0x66, 0x74, 0x79, 0x70, 0x01, 0x02,
      0x00, 0x00, 0x00, 0x11, 0x6d, 0x64, 0x61, 0x74, 0x00, 0x00, 0x00, 0x05, 0x01, 0x02, 0x03, 0x04, 0x05,
      0x00, 0x00, 0x00, 0x08, 0x6d, 0x6f, 0x6f, 0x76,
      0x00, 0x00, 0x00, 0x08, 0x66, 0x72, 0x65, 0x65]"

definition fails_at :: "nat \<Rightarrow> nat \<Rightarrow> bool" where
  "fails_at n k \<longleftrightarrow> k = n"

definition mux_succeeds :: "bytes \<Rightarrow> mux_result" where
  "mux_succeeds stream = Exit 0"

section \<open>Auxiliary facts\<close>

lemma length_be_bytes [simp]: "length (be_bytes k n) = k"
  by (induction k arbitrary: n) auto

lemma be_uint_step: "(n div 256 mod 256 ^ k) * 256 + n mod 256 = (n::nat) mod 256 ^ Suc k"
  using mod_mult2_eq [of n 256 "256 ^ k"] by simp

lemma be_uint_be_bytes: "be_uint (be_bytes k n) = n mod 256 ^ k"
proof (induction k arbitrary: n)
  case 0
  show ?case by (simp add: be_uint_def)
next
  case (Suc k)
  have "be_uint (be_bytes (Suc k) n) = be_uint (be_bytes k (n div 256)) * 256 + unat (of_nat n :: byte)"
    by (simp add: be_uint_def)
  also have "\<dots> = (n div 256 mod 256 ^ k) * 256 + n mod 256"
    by (simp only: Suc.IH unat_of_nat) simp
  also have "\<dots> = n mod 256 ^ Suc k"
    by (rule be_uint_step)
  finally show ?case .
qed

lemma be_uint_be_bytes_small: "n < 256 ^ k \<Longrightarrow> be_uint (be_bytes k n) = n"
  by (simp add: be_uint_be_bytes)

lemma read_no_faults [simp]:
  "f_in_read no_faults bs n s =
     Inr (take n (drop (in_pos s) bs),
          s\<lparr>in_pos := in_pos s + length (take n (drop (in_pos s) bs)), io_calls := Suc (io_calls s)\<rparr>)"
  by (simp add: f_in_read_def no_faults_def)

lemma write_no_faults [simp]:
  "f_out_write no_faults d s = Inr (s\<lparr>out_log := out_log s @ [d], io_calls := Suc (io_calls s)\<rparr>)"
  by (simp add: f_out_write_def no_faults_def)

lemma tell_no_faults [simp]:
  "f_in_tell no_faults s = Inr (in_pos s, s\<lparr>io_calls := Suc (io_calls s)\<rparr>)"
  by (simp add: f_in_tell_def no_faults_def)

lemma extract_valid_unit:
  assumes at: "drop (in_pos s) bs = frame u @ rest" and v: "valid_unit u"
  shows "extract_nals no_faults bs s =
         extract_nals no_faults bs
           (s\<lparr>in_pos := in_pos s + length (frame u), out_log := out_log s @ [START_CODE, u],
              io_calls := io_calls s + 4\<rparr>)"
proof -
  from v have len: "length u < 256 ^ 4" "0 < length u" "length u \<le> 20000000"
    by (auto simp: valid_unit_def)
  have hd: "take 4 (drop (in_pos s) bs) = be_bytes 4 (length u)"
    by (simp add: at frame_def)
  have "drop (in_pos s + 4) bs = drop 4 (drop (in_pos s) bs)"
    by (simp add: add.commute)
  then have tl: "drop (in_pos s + 4) bs = u @ rest"
    by (simp add: at frame_def)
  from arg_cong [OF tl, of length] have avail: "length bs - (in_pos s + 4) = length u + length rest"
    by simp
  have calls: "Suc (Suc (Suc (Suc (io_calls s)))) = io_calls s + 4"
    by simp
  show ?thesis
    using len
    by (subst extract_nals.simps)
      (simp add: hd tl avail calls unpack_I_def be_uint_be_bytes_small frame_def add.assoc)
qed

lemma length_avcc_Cons: "length (avcc (u # us)) = length (frame u) + length (avcc us)"
  by (simp add: avcc_def)

lemma extract_valid_units:
  assumes "drop (in_pos s) bs = avcc us @ rest" and "list_all valid_unit us"
  shows "extract_nals no_faults bs s =
         extract_nals no_faults bs
           (s\<lparr>in_pos := in_pos s + length (avcc us), out_log := out_log s @ annexb us,
              io_calls := io_calls s + 4 * length us\<rparr>)"
  using assms
proof (induction us arbitrary: s)
  case Nil
  show ?case by (simp add: avcc_def annexb_def)
next
  case (Cons u us)
  let ?s1 = "s\<lparr>in_pos := in_pos s + length (frame u), out_log := out_log s @ [START_CODE, u],
                io_calls := io_calls s + 4\<rparr>"
  from Cons.prems have at: "drop (in_pos s) bs = frame u @ (avcc us @ rest)" and v: "valid_unit u"
    and vs: "list_all valid_unit us"
    by (simp_all add: avcc_def)
  have one: "extract_nals no_faults bs s = extract_nals no_faults bs ?s1"
    using at v by (rule extract_valid_unit)
  have "drop (in_pos ?s1) bs = drop (length (frame u)) (drop (in_pos s) bs)"
    by (simp add: add.commute)
  then have at1: "drop (in_pos ?s1) bs = avcc us @ rest"
    by (simp add: at)
  have "extract_nals no_faults bs ?s1 =
        extract_nals no_faults bs
          (?s1\<lparr>in_pos := in_pos ?s1 + length (avcc us), out_log := out_log ?s1 @ annexb us,
               io_calls := io_calls ?s1 + 4 * length us\<rparr>)"
    using at1 vs by (rule Cons.IH)
  with one show ?case
    by (simp add: length_avcc_Cons annexb_def add.assoc)
qed

lemma extract_end_of_payload:
  assumes "length (drop (in_pos s) bs) < 4"
  shows "fst (extract_nals no_faults bs s) = EndOfPayload"
    and "out_log (snd (extract_nals no_faults bs s)) = out_log s"
  using assms by (subst extract_nals.simps, simp)+

lemma extract_suspicious:
  assumes "drop (in_pos s) bs = lb @ rest" and "length lb = 4"
    and "be_uint lb = 0 \<or> 20000000 < be_uint lb"
  shows "fst (extract_nals no_faults bs s) = SuspiciousLength (be_uint lb)"
    and "out_log (snd (extract_nals no_faults bs s)) = out_log s"
  using assms by (subst extract_nals.simps, auto simp: unpack_I_def)+

lemma extract_truncated:
  assumes at: "drop (in_pos s) bs = lb @ rest" and l: "length lb = 4"
    and ok: "0 < be_uint lb" "be_uint lb \<le> 20000000"
    and short: "length rest < be_uint lb"
  shows "fst (extract_nals no_faults bs s) = UnexpectedEOF"
    and "out_log (snd (extract_nals no_faults bs s)) = out_log s"
proof -
  have hd: "take 4 (drop (in_pos s) bs) = lb"
    by (simp add: at l)
  have "drop (in_pos s + 4) bs = drop 4 (drop (in_pos s) bs)"
    by (simp add: add.commute)
  then have tl: "drop (in_pos s + 4) bs = rest"
    by (simp add: at l)
  from arg_cong [OF tl, of length] have avail: "length bs - (in_pos s + 4) = length rest"
    by simp
  show "fst (extract_nals no_faults bs s) = UnexpectedEOF"
    using l ok short by (subst extract_nals.simps) (simp add: hd tl avail unpack_I_def)
  show "out_log (snd (extract_nals no_faults bs s)) = out_log s"
    using l ok short by (subst extract_nals.simps) (simp add: hd tl avail unpack_I_def)
qed

lemma drop_add_at: "drop p bs = xs @ ys \<Longrightarrow> drop (p + length xs) bs = ys"
proof -
  assume a: "drop p bs = xs @ ys"
  have "drop (p + length xs) bs = drop (length xs) (drop p bs)"
    by (simp add: add.commute)
  with a show ?thesis by simp
qed

lemma at_in_file: "drop p bs = xs @ ys \<Longrightarrow> xs \<noteq> [] \<Longrightarrow> p + length xs + length ys = length bs"
proof -
  assume a: "drop p bs = xs @ ys" and n: "xs \<noteq> []"
  from arg_cong [OF a, of length] n show ?thesis by (cases xs) auto
qed

lemma seek_no_faults:
  "- (2 ^ 63) \<le> off \<Longrightarrow> off < 2 ^ 63 \<Longrightarrow> 0 \<le> int (in_pos s) + off \<Longrightarrow>
   int (in_pos s) + off < 2 ^ 63 \<Longrightarrow>
   f_in_seek_cur no_faults off s =
     Inr (s\<lparr>in_pos := nat (int (in_pos s) + off), io_calls := Suc (io_calls s)\<rparr>)"
  by (simp add: f_in_seek_cur_def no_faults_def)

lemma scan_step_skips_box:
  assumes at: "drop (in_pos s) bs = encode_box b @ rest" and sk: "skippable b"
    and small: "length bs < 2 ^ 63"
  shows "\<exists>s'. scan_step no_faults bs s = Continue s' \<and>
              in_pos s' = in_pos s + length (encode_box b) \<and> out_log s' = out_log s"
proof (cases b)
  case (Box ty body)
  with sk have ty: "length ty = 4" "decode_ascii_ignore ty \<noteq> mdat" and sz: "8 + length body < 2 ^ 32"
    by simp_all
  from at Box have at': "drop (in_pos s) bs = (be_bytes 4 (8 + length body) @ ty) @ (body @ rest)"
    by simp
  have hd: "take 8 (drop (in_pos s) bs) = be_bytes 4 (8 + length body) @ ty"
    by (simp add: at' ty)
  from at_in_file [OF at'] ty have fit: "in_pos s + 8 + length body + length rest = length bs"
    by force
  have dec: "be_uint (be_bytes 4 (8 + length body)) = 8 + length body"
    using sz by (simp add: be_uint_be_bytes_small)
  show ?thesis
    using ty sz small fit
    by (simp add: scan_step_def skip_atom_def process_mdat_def hd unpack_I4s_def dec seek_no_faults Box)
next
  case (LargeBox ty body)
  with sk have ty: "length ty = 4" "decode_ascii_ignore ty \<noteq> mdat" and sz: "16 + length body < 2 ^ 64"
    by simp_all
  from at LargeBox have at': "drop (in_pos s) bs = (be_bytes 4 1 @ ty) @ (be_bytes 8 (16 + length body) @ body @ rest)"
    by simp
  have hd: "take 8 (drop (in_pos s) bs) = be_bytes 4 1 @ ty"
    by (simp add: at' ty)
  from drop_add_at [OF at'] ty have at2: "drop (in_pos s + 8) bs = be_bytes 8 (16 + length body) @ (body @ rest)"
    by simp
  then have hd2: "take 8 (drop (in_pos s + 8) bs) = be_bytes 8 (16 + length body)"
    by simp
  have "be_bytes 8 (16 + length body) \<noteq> []"
    using length_be_bytes [of 8 "16 + length body"] by force
  from at_in_file [OF at2 this] have fit: "in_pos s + 16 + length body + length rest = length bs"
    by simp
  have dec1: "be_uint (be_bytes 4 (Suc 0)) = Suc 0"
    by (simp add: be_uint_be_bytes_small)
  have dec: "be_uint (be_bytes 8 (16 + length body)) = 16 + length body"
    using sz by (simp add: be_uint_be_bytes_small)
  show ?thesis
    using ty sz small fit
    by (simp add: scan_step_def skip_atom_def process_mdat_def hd hd2 unpack_I4s_def unpack_Q_def dec dec1 seek_no_faults LargeBox)
qed

lemma scan_skips_boxes:
  assumes "drop (in_pos s) bs = concat (map encode_box bxs) @ rest" and "list_all skippable bxs"
    and small: "length bs < 2 ^ 63"
  shows "\<exists>s'. scan no_faults bs s = scan no_faults bs s' \<and>
              in_pos s' = in_pos s + length (concat (map encode_box bxs)) \<and>
              out_log s' = out_log s"
  using assms(1,2)
proof (induction bxs arbitrary: s)
  case Nil
  show ?case by (intro exI [of _ s]) simp
next
  case (Cons b bxs)
  from Cons.prems have at: "drop (in_pos s) bs = encode_box b @ (concat (map encode_box bxs) @ rest)"
    and sk: "skippable b" and sks: "list_all skippable bxs"
    by simp_all
  from scan_step_skips_box [OF at sk small] obtain s1
    where st: "scan_step no_faults bs s = Continue s1"
      and p1: "in_pos s1 = in_pos s + length (encode_box b)" and o1: "out_log s1 = out_log s"
    by blast
  from drop_add_at [OF at] p1 have at1: "drop (in_pos s1) bs = concat (map encode_box bxs) @ rest"
    by simp
  from Cons.IH [OF at1 sks] obtain s2
    where sc: "scan no_faults bs s1 = scan no_faults bs s2"
      and p2: "in_pos s2 = in_pos s1 + length (concat (map encode_box bxs))"
      and o2: "out_log s2 = out_log s1"
    by blast
  have "scan no_faults bs s = scan no_faults bs s1"
    by (subst scan.simps) (simp add: st)
  with sc p1 p2 o1 o2 show ?case
    by (intro exI [of _ s2]) simp
qed

lemma scan_finds_payload:
  assumes at: "drop (in_pos s) bs = h @ payload" and h: "payload_header h"
  shows "\<exists>s'. in_pos s' = in_pos s + length h \<and> out_log s' = out_log s \<and>
              scan no_faults bs s =
                Some (Extracted (fst (extract_nals no_faults bs s')), snd (extract_nals no_faults bs s'))"
proof (cases "be_uint (take 4 h) = 1")
  case True
  with h have l: "length h = 16" and tag: "take 4 (drop 4 h) = mdat"
    by (simp_all add: payload_header_def)
  have hd: "take 8 (drop (in_pos s) bs) = take 8 h"
    by (simp add: at l)
  have "drop (in_pos s + 8) bs = drop 8 (drop (in_pos s) bs)"
    by (simp add: add.commute)
  then have hd2: "take 8 (drop (in_pos s + 8) bs) = drop 8 h"
    by (simp add: at l)
  have nm: "decode_ascii_ignore (drop 4 (take 8 h)) = mdat"
    using tag l by (simp add: drop_take decode_ascii_ignore_def mdat_def)
  from arg_cong [OF hd2, of length] l have avail: "min (length bs - (in_pos s + 8)) 8 = 8"
    by simp
  let ?s' = "s\<lparr>in_pos := in_pos s + 16, io_calls := Suc (Suc (Suc (io_calls s)))\<rparr>"
  have "scan_step no_faults bs s =
          Finish (Extracted (fst (extract_nals no_faults bs ?s'))) (snd (extract_nals no_faults bs ?s'))"
    using True l
    by (simp add: scan_step_def skip_atom_def process_mdat_def hd hd2 avail unpack_I4s_def unpack_Q_def nm case_prod_beta add.commute)
  then have "scan no_faults bs s =
          Some (Extracted (fst (extract_nals no_faults bs ?s')), snd (extract_nals no_faults bs ?s'))"
    by (subst scan.simps) simp
  with l show ?thesis
    by (intro exI [of _ ?s']) simp
next
  case False
  with h have l: "length h = 8" and tag: "take 4 (drop 4 h) = mdat"
    by (simp_all add: payload_header_def)
  have hd: "take 8 (drop (in_pos s) bs) = h"
    by (simp add: at l)
  have nm: "decode_ascii_ignore (drop 4 h) = mdat"
    using tag l by (simp add: decode_ascii_ignore_def mdat_def)
  let ?s' = "s\<lparr>in_pos := in_pos s + 8, io_calls := Suc (Suc (io_calls s))\<rparr>"
  have "scan_step no_faults bs s =
          Finish (Extracted (fst (extract_nals no_faults bs ?s'))) (snd (extract_nals no_faults bs ?s'))"
    using False l
    by (simp add: scan_step_def skip_atom_def process_mdat_def hd unpack_I4s_def nm case_prod_beta)
  then have "scan no_faults bs s =
          Some (Extracted (fst (extract_nals no_faults bs ?s')), snd (extract_nals no_faults bs ?s'))"
    by (subst scan.simps) simp
  with l show ?thesis
    by (intro exI [of _ ?s']) simp
qed

lemma with_block_container:
  assumes sk: "list_all skippable bxs" and h: "payload_header h"
    and small: "length (container bxs h payload) < 2 ^ 63"
  shows "\<exists>s. drop (in_pos s) (container bxs h payload) = payload \<and>
             out_log s = [START_CODE, SPS, START_CODE, PPS] \<and>
             with_block no_faults (container bxs h payload) =
               Some (Extracted (fst (extract_nals no_faults (container bxs h payload) s)),
                     snd (extract_nals no_faults (container bxs h payload) s))"
proof -
  let ?bs = "container bxs h payload"
  let ?s0 = "\<lparr>in_pos = 0, out_log = [START_CODE, SPS, START_CODE, PPS], io_calls = Suc (Suc (Suc (Suc 0)))\<rparr>"
  have wb: "with_block no_faults ?bs = scan no_faults ?bs ?s0"
    by (simp add: with_block_def session0_def)
  have at0: "drop (in_pos ?s0) ?bs = concat (map encode_box bxs) @ (h @ payload)"
    by (simp add: container_def)
  from scan_skips_boxes [OF at0 sk small] obtain s1
    where sc: "scan no_faults ?bs ?s0 = scan no_faults ?bs s1"
      and p1: "in_pos s1 = length (concat (map encode_box bxs))"
      and o1: "out_log s1 = [START_CODE, SPS, START_CODE, PPS]"
    by auto
  from drop_add_at [OF at0] p1 have at1: "drop (in_pos s1) ?bs = h @ payload"
    by simp
  from scan_finds_payload [OF at1 h] obtain s2
    where p2: "in_pos s2 = in_pos s1 + length h" and o2: "out_log s2 = out_log s1"
      and fin: "scan no_faults ?bs s1 =
                  Some (Extracted (fst (extract_nals no_faults ?bs s2)), snd (extract_nals no_faults ?bs s2))"
    by blast
  from drop_add_at [OF at1] p2 have at2: "drop (in_pos s2) ?bs = payload"
    by simp
  from at2 o1 o2 wb sc fin show ?thesis
    by (intro exI [of _ s2]) simp
qed

lemma recover_file_extracted:
  assumes "with_block fails bs = Some (Extracted why, s)"
  shows "recover_file fails ffmpeg bs =
           Some \<lparr>result = run_mux ffmpeg (concat (out_log s)),
                  ended = Extracted why, writes = out_log s, muxed = True, temp_left = False\<rparr>"
  using assms
  by (simp add: recover_file_def finally_clause_def after_with_def)

lemma run_mux_Exit: "ffmpeg stream = Exit 0 \<Longrightarrow> run_mux ffmpeg stream = Returned True"
  by (simp add: run_mux_def)

lemma annexb_Cons: "annexb (u # us) = [START_CODE, u] @ annexb us"
  by (simp add: annexb_def)

lemma concat_annexb: "concat (annexb us) = concat (map (\<lambda>u. START_CODE @ u) us)"
  by (induction us) (simp_all add: annexb_def)

text \<open>
  When the records of the payload box run to the end of the file (fewer than four bytes
  follow them), the writes are the start code and the SPS, the start code and the PPS,
  and the start code and each unit, in the order of the input.
\<close>

lemma records_to_end_of_file:
  assumes sk: "list_all skippable bxs" and h: "payload_header h"
    and v: "list_all valid_unit us" and t: "length tail < 4"
    and small: "length (container bxs h (avcc us @ tail)) < 2 ^ 63"
  shows "\<exists>oc. recover_file no_faults ffmpeg (container bxs h (avcc us @ tail)) = Some oc \<and>
              ended oc = Extracted EndOfPayload \<and> muxed oc \<and>
              writes oc = annexb (SPS # PPS # us) \<and>
              concat (writes oc) = concat (map (\<lambda>u. START_CODE @ u) (SPS # PPS # us))"
proof -
  let ?bs = "container bxs h (avcc us @ tail)"
  from with_block_container [OF sk h small] obtain s
    where at: "drop (in_pos s) ?bs = avcc us @ tail"
      and o: "out_log s = [START_CODE, SPS, START_CODE, PPS]"
      and wb: "with_block no_faults ?bs =
                 Some (Extracted (fst (extract_nals no_faults ?bs s)), snd (extract_nals no_faults ?bs s))"
    by blast
  let ?s1 = "s\<lparr>in_pos := in_pos s + length (avcc us), out_log := out_log s @ annexb us,
                io_calls := io_calls s + 4 * length us\<rparr>"
  from extract_valid_units [OF at v] have ex: "extract_nals no_faults ?bs s = extract_nals no_faults ?bs ?s1" .
  from drop_add_at [OF at] have "length (drop (in_pos ?s1) ?bs) < 4"
    using t by simp
  from extract_end_of_payload [OF this]
  have why: "fst (extract_nals no_faults ?bs s) = EndOfPayload"
    and out: "out_log (snd (extract_nals no_faults ?bs s)) = annexb (SPS # PPS # us)"
    by (simp_all add: ex o annexb_Cons)
  from recover_file_extracted [OF wb, of ffmpeg] why out show ?thesis
    by (simp add: concat_annexb)
qed

lemma be_bytes_4:
  "be_bytes 4 n = [of_nat (n div 16777216), of_nat (n div 65536), of_nat (n div 256), of_nat n]"
proof -
  have four: "(4::nat) = Suc (Suc (Suc (Suc 0)))"
    by simp
  show ?thesis
    unfolding four by (simp add: div_mult2_eq [symmetric])
qed

lemma looping_step:
  "in_pos s = 0 \<Longrightarrow>
   scan_step no_faults [0, 0, 0, 1, 0x66, 0x72, 0x65, 0x65, 0, 0, 0, 0, 0, 0, 0, 0] s =
     Continue (s\<lparr>in_pos := 0, io_calls := Suc (Suc (Suc (io_calls s)))\<rparr>)"
  by (simp add: scan_step_def skip_atom_def unpack_I4s_def unpack_Q_def be_uint_def
      decode_ascii_ignore_def mdat_def seek_no_faults)

lemma looping_scan:
  assumes ret: "scan fails bs s = Some y"
  shows "fails = no_faults \<longrightarrow> bs = [0, 0, 0, 1, 0x66, 0x72, 0x65, 0x65, 0, 0, 0, 0, 0, 0, 0, 0] \<longrightarrow>
         in_pos s \<noteq> 0"
proof (rule scan.raw_induct
    [where P = "\<lambda>fails bs s y. fails = no_faults \<longrightarrow>
        bs = [0, 0, 0, 1, 0x66, 0x72, 0x65, 0x65, 0, 0, 0, 0, 0, 0, 0, 0] \<longrightarrow> in_pos s \<noteq> 0",
      OF _ ret])
  fix f :: "(nat \<Rightarrow> bool) \<Rightarrow> bytes \<Rightarrow> session \<Rightarrow> (ending \<times> session) option"
  fix fails bs s y
  assume IH: "\<And>fails bs s y. f fails bs s = Some y \<Longrightarrow>
      fails = no_faults \<longrightarrow> bs = [0, 0, 0, 1, 0x66, 0x72, 0x65, 0x65, 0, 0, 0, 0, 0, 0, 0, 0] \<longrightarrow>
      in_pos s \<noteq> 0"
    and eq: "(case scan_step fails bs s of Continue s' \<Rightarrow> f fails bs s'
              | Finish e s' \<Rightarrow> Some (e, s')) = Some y"
  show "fails = no_faults \<longrightarrow> bs = [0, 0, 0, 1, 0x66, 0x72, 0x65, 0x65, 0, 0, 0, 0, 0, 0, 0, 0] \<longrightarrow>
        in_pos s \<noteq> 0"
  proof (intro impI notI)
    assume a: "fails = no_faults" "bs = [0, 0, 0, 1, 0x66, 0x72, 0x65, 0x65, 0, 0, 0, 0, 0, 0, 0, 0]"
      and z: "in_pos s = 0"
    from eq a looping_step [OF z]
    have "f fails bs (s\<lparr>in_pos := 0, io_calls := Suc (Suc (Suc (io_calls s)))\<rparr>) = Some y"
      by simp
    from IH [OF this] a show False
      by simp
  qed
qed

lemma extract_writes:
  "\<exists>us. list_all valid_unit us \<and>
     (out_log (snd (extract_nals fails bs s)) = out_log s @ annexb us \<or>
      (\<exists>k. fails k) \<and> out_log (snd (extract_nals fails bs s)) = out_log s @ annexb us @ [START_CODE])"
  (is "?P fails bs s")
proof (induction fails bs s rule: extract_nals.induct)
  case (1 fails bs s)
  have base: "?P fails bs s" if "extract_nals fails bs s = (w, s')" "out_log s' = out_log s" for w s'
    using that by (intro exI [of _ "[]"]) (simp add: annexb_def)
  show ?case
  proof (cases "f_in_read fails bs 4 s")
    case (Inl e)
    then have "extract_nals fails bs s = (ExtractionError e, s)"
      by (subst extract_nals.simps) simp
    then show ?thesis
      by (rule base) simp
  next
    case (Inr x)
    obtain length_bytes s1 where x: "x = (length_bytes, s1)"
      by (cases x)
    from Inr x have o1: "out_log s1 = out_log s"
      by (auto simp: f_in_read_def Let_def split: if_splits)
    show ?thesis
    proof (cases "length length_bytes < 4")
      case True
      with Inr x have "extract_nals fails bs s = (EndOfPayload, s1)"
        by (subst extract_nals.simps) simp
      then show ?thesis
        using o1 by (rule base)
    next
      case l4: False
      show ?thesis
      proof (cases "unpack_I length_bytes")
        case (Inl e)
        with Inr x l4 have "extract_nals fails bs s = (ExtractionError e, s1)"
          by (subst extract_nals.simps) simp
        then show ?thesis
          using o1 by (rule base)
      next
        case nl: (Inr nal_len)
        show ?thesis
        proof (cases "nal_len > 20000000 \<or> nal_len = 0")
          case True
          with Inr x l4 nl have "extract_nals fails bs s = (SuspiciousLength nal_len, s1)"
            by (subst extract_nals.simps) auto
          then show ?thesis
            using o1 by (rule base)
        next
          case ok: False
          show ?thesis
          proof (cases "f_in_read fails bs nal_len s1")
            case (Inl e)
            with Inr x l4 nl ok have "extract_nals fails bs s = (ExtractionError e, s1)"
              by (subst extract_nals.simps) simp
            then show ?thesis
              using o1 by (rule base)
          next
            case r2: (Inr y)
            obtain nal_data s2 where y: "y = (nal_data, s2)"
              by (cases y)
            from r2 y have o2: "out_log s2 = out_log s1" and le: "length nal_data \<le> nal_len"
              by (auto simp: f_in_read_def Let_def split: if_splits)
            show ?thesis
            proof (cases "length nal_data < nal_len")
              case True
              with Inr x l4 nl ok r2 y have "extract_nals fails bs s = (UnexpectedEOF, s2)"
                by (subst extract_nals.simps) simp
              moreover from o1 o2 have "out_log s2 = out_log s" by simp
              ultimately show ?thesis
                by (rule base)
            next
              case full: False
              with le ok have v: "valid_unit nal_data"
                by (simp add: valid_unit_def)
              show ?thesis
              proof (cases "f_out_write fails START_CODE s2")
                case (Inl e)
                with Inr x l4 nl ok r2 y full have "extract_nals fails bs s = (ExtractionError e, s2)"
                  by (subst extract_nals.simps) simp
                moreover from o1 o2 have "out_log s2 = out_log s" by simp
                ultimately show ?thesis
                  by (rule base)
              next
                case w1: (Inr s3)
                then have o3: "out_log s3 = out_log s2 @ [START_CODE]"
                  by (auto simp: f_out_write_def split: if_splits)
                show ?thesis
                proof (cases "f_out_write fails nal_data s3")
                  case (Inl e)
                  then have f: "\<exists>k. fails k"
                    by (auto simp: f_out_write_def split: if_splits)
                  from Inl Inr x l4 nl ok r2 y full w1
                  have "extract_nals fails bs s = (ExtractionError e, s3)"
                    by (subst extract_nals.simps) simp
                  with f o1 o2 o3 show ?thesis
                    by (intro exI [of _ "[]"]) (simp add: annexb_def)
                next
                  case w2: (Inr s4)
                  then have o4: "out_log s4 = out_log s3 @ [nal_data]"
                    by (auto simp: f_out_write_def split: if_splits)
                  from "1.IH" [OF Inr x [symmetric] l4 nl ok r2 y [symmetric] full w1 w2]
                  obtain us where vs: "list_all valid_unit us"
                    and out: "out_log (snd (extract_nals fails bs s4)) = out_log s4 @ annexb us \<or>
                      (\<exists>k. fails k) \<and>
                      out_log (snd (extract_nals fails bs s4)) = out_log s4 @ annexb us @ [START_CODE]"
                    by blast
                  have eq: "extract_nals fails bs s = extract_nals fails bs s4"
                    using Inr x l4 nl ok r2 y full w1 w2
                    by (subst extract_nals.simps) simp
                  from out o4 o3 o2 o1 vs v show ?thesis
                    unfolding eq
                    by (intro exI [of _ "nal_data # us"]) (auto simp: annexb_Cons)
                qed
              qed
            qed
          qed
        qed
      qed
    qed
  qed
qed

lemma extract_error_is_io_failure:
  "fst (extract_nals fails bs s) = ExtractionError e \<Longrightarrow> e = OSError \<and> (\<exists>k. fails k)"
proof (induction fails bs s rule: extract_nals.induct)
  case (1 fails bs s)
  from "1.prems" show ?case
    apply (subst (asm) extract_nals.simps)
    apply (auto simp: f_in_read_def f_out_write_def unpack_I_def Let_def
        split: sum.splits prod.splits if_splits dest!: "1.IH" [rotated -1])
    done
qed

lemma read_out_log: "f_in_read fails bs n s = Inr (d, s1) \<Longrightarrow> out_log s1 = out_log s"
  by (auto simp: f_in_read_def Let_def split: if_splits)

lemma tell_out_log: "f_in_tell fails s = Inr (p, s1) \<Longrightarrow> out_log s1 = out_log s"
  by (auto simp: f_in_tell_def split: if_splits)

lemma seek_out_log: "f_in_seek_cur fails off s = Inr s1 \<Longrightarrow> out_log s1 = out_log s"
  by (auto simp: f_in_seek_cur_def split: if_splits)

lemma skip_atom_Continue:
  "skip_atom fails bs n s = Continue s1 \<Longrightarrow> out_log s1 = out_log s"
  by (auto simp: skip_atom_def split: sum.splits prod.splits if_splits
      dest!: read_out_log seek_out_log)

lemma skip_atom_Finish:
  "skip_atom fails bs n s = Finish e s' \<Longrightarrow>
   out_log s' = out_log s \<and> (e = NotFound \<or> (\<exists>x. e = Escaped x))"
  by (auto simp: skip_atom_def split: sum.splits prod.splits if_splits
      dest!: read_out_log seek_out_log)

lemma process_mdat_Continue: "process_mdat fails bs n s \<noteq> Continue s1"
  by (auto simp: process_mdat_def split: sum.splits prod.splits if_splits)

lemma process_mdat_Finish:
  assumes fin: "process_mdat fails bs n s = Finish e s'"
  shows "(\<exists>s2. out_log s2 = out_log s \<and> e = Extracted (fst (extract_nals fails bs s2)) \<and>
               s' = snd (extract_nals fails bs s2)) \<or>
         out_log s' = out_log s \<and> (\<exists>x. e = Escaped x)"
proof (cases "f_in_tell fails s")
  case (Inl x)
  with fin show ?thesis
    by (auto simp: process_mdat_def)
next
  case (Inr y)
  obtain p s2 where y: "y = (p, s2)"
    by (cases y)
  from Inr y have o2: "out_log s2 = out_log s"
    by (simp add: tell_out_log)
  show ?thesis
  proof (cases "n = 1")
    case False
    with fin Inr y have "e = Extracted (fst (extract_nals fails bs s2))"
      and "s' = snd (extract_nals fails bs s2)"
      by (simp_all add: process_mdat_def case_prod_beta)
    with o2 show ?thesis
      by blast
  next
    case True
    show ?thesis
    proof (cases "f_in_read fails bs 8 s2")
      case (Inl x)
      with fin Inr y True o2 show ?thesis
        by (auto simp: process_mdat_def)
    next
      case r: (Inr z)
      obtain d s3 where z: "z = (d, s3)"
        by (cases z)
      from r z o2 have o3: "out_log s3 = out_log s"
        by (simp add: read_out_log)
      show ?thesis
      proof (cases "unpack_Q d")
        case (Inl x)
        with fin Inr y True r z o3 show ?thesis
          by (auto simp: process_mdat_def)
      next
        case q: (Inr m)
        with fin Inr y True r z have "e = Extracted (fst (extract_nals fails bs s3))"
          and "s' = snd (extract_nals fails bs s3)"
          by (simp_all add: process_mdat_def case_prod_beta)
        with o3 show ?thesis
          by blast
      qed
    qed
  qed
qed

lemma scan_step_Continue:
  "scan_step fails bs s = Continue s1 \<Longrightarrow> out_log s1 = out_log s"
  by (auto simp: scan_step_def process_mdat_Continue split: sum.splits prod.splits if_splits
      dest!: read_out_log skip_atom_Continue)

lemma scan_step_Finish:
  "scan_step fails bs s = Finish e s' \<Longrightarrow>
   (\<exists>s2. out_log s2 = out_log s \<and> e = Extracted (fst (extract_nals fails bs s2)) \<and>
         s' = snd (extract_nals fails bs s2)) \<or>
   out_log s' = out_log s \<and> (e = NotFound \<or> (\<exists>x. e = Escaped x))"
  by (auto simp: scan_step_def split: sum.splits prod.splits if_splits
      dest!: read_out_log skip_atom_Finish process_mdat_Finish)

lemma scan_result:
  assumes ret: "scan fails bs s = Some y"
  shows "(\<exists>s2. out_log s2 = out_log s \<and> fst y = Extracted (fst (extract_nals fails bs s2)) \<and>
              snd y = snd (extract_nals fails bs s2)) \<or>
         out_log (snd y) = out_log s \<and> (fst y = NotFound \<or> (\<exists>x. fst y = Escaped x))"
proof (rule scan.raw_induct
    [where P = "\<lambda>fails bs s y.
        (\<exists>s2. out_log s2 = out_log s \<and> fst y = Extracted (fst (extract_nals fails bs s2)) \<and>
              snd y = snd (extract_nals fails bs s2)) \<or>
        out_log (snd y) = out_log s \<and> (fst y = NotFound \<or> (\<exists>x. fst y = Escaped x))",
      OF _ ret])
  fix f :: "(nat \<Rightarrow> bool) \<Rightarrow> bytes \<Rightarrow> session \<Rightarrow> (ending \<times> session) option"
  fix fails bs s y
  assume IH: "\<And>fails bs s y. f fails bs s = Some y \<Longrightarrow>
        (\<exists>s2. out_log s2 = out_log s \<and> fst y = Extracted (fst (extract_nals fails bs s2)) \<and>
              snd y = snd (extract_nals fails bs s2)) \<or>
        out_log (snd y) = out_log s \<and> (fst y = NotFound \<or> (\<exists>x. fst y = Escaped x))"
    and eq: "(case scan_step fails bs s of Continue s' \<Rightarrow> f fails bs s'
              | Finish e s' \<Rightarrow> Some (e, s')) = Some y"
  show "(\<exists>s2. out_log s2 = out_log s \<and> fst y = Extracted (fst (extract_nals fails bs s2)) \<and>
              snd y = snd (extract_nals fails bs s2)) \<or>
        out_log (snd y) = out_log s \<and> (fst y = NotFound \<or> (\<exists>x. fst y = Escaped x))"
  proof (cases "scan_step fails bs s")
    case (Continue s1)
    with eq have "f fails bs s1 = Some y" by simp
    from IH [OF this] scan_step_Continue [OF Continue] show ?thesis by simp
  next
    case (Finish e s')
    with eq have "y = (e, s')" by simp
    with scan_step_Finish [OF Finish] show ?thesis by simp
  qed
qed

lemma with_block_result:
  assumes "with_block fails bs = Some (e, s')"
  shows "(\<exists>s2. out_log s2 = [START_CODE, SPS, START_CODE, PPS] \<and>
              e = Extracted (fst (extract_nals fails bs s2)) \<and>
              s' = snd (extract_nals fails bs s2)) \<or>
         out_log s' = [START_CODE, SPS, START_CODE, PPS] \<and> (e = NotFound \<or> (\<exists>x. e = Escaped x)) \<or>
         e = Escaped OSError \<and> (\<exists>k. fails k) \<and> prefix (out_log s') [START_CODE, SPS, START_CODE, PPS]"
proof (cases "fails 0 \<or> fails (Suc 0) \<or> fails (Suc (Suc 0)) \<or> fails (Suc (Suc (Suc 0)))")
  case True
  then have "\<exists>k. fails k" by blast
  with True assms show ?thesis
    by (auto simp: with_block_def session0_def f_out_write_def split: if_splits)
next
  case False
  let ?s = "\<lparr>in_pos = 0, out_log = [START_CODE, SPS, START_CODE, PPS], io_calls = Suc (Suc (Suc (Suc 0)))\<rparr>"
  from False assms have "scan fails bs ?s = Some (e, s')"
    by (simp add: with_block_def session0_def f_out_write_def)
  from scan_result [OF this]
  have "(\<exists>s2. out_log s2 = [START_CODE, SPS, START_CODE, PPS] \<and>
              e = Extracted (fst (extract_nals fails bs s2)) \<and>
              s' = snd (extract_nals fails bs s2)) \<or>
         out_log s' = [START_CODE, SPS, START_CODE, PPS] \<and> (e = NotFound \<or> (\<exists>x. e = Escaped x))"
    by simp
  then show ?thesis
    by (rule disjE) (intro disjI1, assumption, intro disjI2 disjI1, assumption)
qed

lemma recover_file_outcome:
  assumes "recover_file fails ffmpeg bs = Some oc"
  shows "\<exists>e s. with_block fails bs = Some (e, s) \<and> ended oc = e \<and> writes oc = out_log s \<and>
               \<not> temp_left oc \<and>
               (case e of
                  Escaped x \<Rightarrow> result oc = except_outer x \<and> \<not> muxed oc
                | NotFound \<Rightarrow> result oc = Returned False \<and> \<not> muxed oc
                | Extracted why \<Rightarrow> result oc = run_mux ffmpeg (concat (out_log s)) \<and> muxed oc)"
proof (cases "with_block fails bs")
  case None
  with assms show ?thesis
    by (simp add: recover_file_def)
next
  case (Some y)
  obtain e s where y: "y = (e, s)"
    by (cases y)
  from assms Some y have oc: "oc = finally_clause e s (after_with ffmpeg e s)"
    by (simp add: recover_file_def)
  have "ended oc = e \<and> writes oc = out_log s \<and> \<not> temp_left oc \<and>
               (case e of
                  Escaped x \<Rightarrow> result oc = except_outer x \<and> \<not> muxed oc
                | NotFound \<Rightarrow> result oc = Returned False \<and> \<not> muxed oc
                | Extracted why \<Rightarrow> result oc = run_mux ffmpeg (concat (out_log s)) \<and> muxed oc)"
    by (cases e) (simp_all add: oc finally_clause_def after_with_def)
  with Some y show ?thesis
    by simp
qed

lemma rfind_last:
  assumes "c \<notin> set zs"
  shows "rfind c (ys @ c # zs) = int (length ys)"
proof -
  have "takeWhile (\<lambda>x. x \<noteq> c) (rev zs @ c # rev ys) =
        rev zs @ takeWhile (\<lambda>x. x \<noteq> c) (c # rev ys)"
    using assms by (intro takeWhile_append2) auto
  then have "length (takeWhile (\<lambda>x. x \<noteq> c) (rev (ys @ c # zs))) = length zs"
    by simp
  then show ?thesis
    by (simp add: rfind_def)
qed

lemma rfind_ge: "- 1 \<le> rfind c p"
proof (cases "c \<in> set p")
  case True
  then obtain ys zs where "p = ys @ c # zs" "c \<notin> set zs"
    by (auto dest: split_list_last)
  then show ?thesis by (simp add: rfind_last)
next
  case False
  then show ?thesis by (simp add: rfind_def)
qed

lemma splitext_parts:
  "fst (splitext p) @ snd (splitext p) = p \<and> CHR ''/'' \<notin> set (snd (splitext p)) \<and>
   (snd (splitext p) = [] \<or> (\<exists>e. snd (splitext p) = CHR ''.'' # e \<and> CHR ''.'' \<notin> set e))"
proof (cases "CHR ''.'' \<in> set p")
  case False
  then have "rfind CHR ''.'' p = - 1"
    by (simp add: rfind_def)
  with rfind_ge [of "CHR ''/''" p] have "splitext p = (p, [])"
    by (simp add: splitext_def Let_def)
  then show ?thesis by simp
next
  case True
  then obtain ys e where p: "p = ys @ CHR ''.'' # e" and e: "CHR ''.'' \<notin> set e"
    by (auto dest: split_list_last)
  then have dot: "rfind CHR ''.'' (ys @ CHR ''.'' # e) = int (length ys)"
    by (simp add: rfind_last)
  show ?thesis
  proof (cases "snd (splitext p) = []")
    case True
    then have "splitext p = (p, [])"
      by (auto simp: splitext_def Let_def split: if_splits)
    then show ?thesis by simp
  next
    case False
    then have gt: "rfind CHR ''/'' p < int (length ys)"
      and sp: "splitext p = (ys, CHR ''.'' # e)"
      unfolding p by (auto simp: splitext_def Let_def dot split: if_splits)
    have "CHR ''/'' \<notin> set e"
    proof (cases "CHR ''/'' \<in> set p")
      case False
      with p show ?thesis by simp
    next
      case True
      then obtain us vs where q: "p = us @ CHR ''/'' # vs" and vs: "CHR ''/'' \<notin> set vs"
        by (auto dest: split_list_last)
      with gt have lt: "length us < length ys"
        by (simp add: rfind_last)
      from p have "CHR ''.'' # e = drop (length ys) p"
        by simp
      also from lt have "\<dots> = drop (length ys - Suc (length us)) vs"
        by (simp add: q drop_Cons')
      finally have "set (CHR ''.'' # e) \<subseteq> set vs"
        by (metis set_drop_subset)
      with vs show ?thesis by auto
    qed
    with sp e show ?thesis by (simp add: p)
  qed
qed

section \<open>Well-formed input\<close>

text \<open>
  Claim C1 says that the stream of a well-formed input whose payload box contains \<open>N\<close>
  valid records has exactly \<open>N + 2\<close> units. The extraction loop never compares the cursor
  with the size of the payload box, although the comment of lines 88 to 90 announces a
  loop "until EOF or atom end": on the file \<open>faststart_last\<close>, whose payload box contains
  one record, it goes on after the end of the box, reads the size field of \<^verbatim>\<open>moov\<close> as a length of 8
  and writes the name \<^verbatim>\<open>moov\<close> and the size field of \<^verbatim>\<open>free\<close> as a unit, before the name
  \<^verbatim>\<open>free\<close> fails the sanity check. The stream has four units, not three.
\<close>

theorem units_read_past_end_of_payload_box:
  "faststart_last =
     container [Box [0x66, 0x74, 0x79, 0x70] [0x01, 0x02]] [0x00, 0x00, 0x00, 0x11, 0x6d, 0x64, 0x61, 0x74]
       (avcc [[0x01, 0x02, 0x03, 0x04, 0x05]] @
        encode_box (Box [0x6d, 0x6f, 0x6f, 0x76] []) @ encode_box (Box [0x66, 0x72, 0x65, 0x65] [])) \<and>
   recover_file no_faults mux_succeeds faststart_last =
     Some \<lparr>result = Returned True, ended = Extracted (SuspiciousLength 1718773093),
           writes = [[0x00, 0x00, 0x00, 0x01], SPS, [0x00, 0x00, 0x00, 0x01], PPS,
                     [0x00, 0x00, 0x00, 0x01], [0x01, 0x02, 0x03, 0x04, 0x05],
                     [0x00, 0x00, 0x00, 0x01], [0x6d, 0x6f, 0x6f, 0x76, 0x00, 0x00, 0x00, 0x08]],
           muxed = True, temp_left = False\<rparr>"
proof
  show "faststart_last =
     container [Box [0x66, 0x74, 0x79, 0x70] [0x01, 0x02]] [0x00, 0x00, 0x00, 0x11, 0x6d, 0x64, 0x61, 0x74]
       (avcc [[0x01, 0x02, 0x03, 0x04, 0x05]] @
        encode_box (Box [0x6d, 0x6f, 0x6f, 0x76] []) @ encode_box (Box [0x66, 0x72, 0x65, 0x65] []))"
    by (simp add: faststart_last_def container_def avcc_def frame_def be_bytes_4)
  show "recover_file no_faults mux_succeeds faststart_last =
     Some \<lparr>result = Returned True, ended = Extracted (SuspiciousLength 1718773093),
           writes = [[0x00, 0x00, 0x00, 0x01], SPS, [0x00, 0x00, 0x00, 0x01], PPS,
                     [0x00, 0x00, 0x00, 0x01], [0x01, 0x02, 0x03, 0x04, 0x05],
                     [0x00, 0x00, 0x00, 0x01], [0x6d, 0x6f, 0x6f, 0x76, 0x00, 0x00, 0x00, 0x08]],
           muxed = True, temp_left = False\<rparr>"
    by (simp add: faststart_last_def recover_file_def with_block_def session0_def scan.simps
        scan_step_def skip_atom_def process_mdat_def extract_nals.simps unpack_I4s_def unpack_I_def
        be_uint_def decode_ascii_ignore_def mdat_def seek_no_faults START_CODE_def
        after_with_def run_mux_def mux_succeeds_def finally_clause_def)
qed

section \<open>Corrupt and truncated payloads\<close>

text \<open>
  Claim C2. After \<open>K\<close> valid records comes a length field that is 0 or above 20,000,000.
  Extraction stops there on the sanity check, the intermediate stream holds the two
  parameter units and the \<open>K\<close> units, the mux step is invoked on it, and the call returns
  True when the mux step succeeds.
\<close>

theorem suspicious_length_stops:
  assumes sk: "list_all skippable bxs" and h: "payload_header h"
    and v: "list_all valid_unit us"
    and l: "length lb = 4" and bad: "be_uint lb = 0 \<or> 20000000 < be_uint lb"
    and small: "length (container bxs h (avcc us @ lb @ rest)) < 2 ^ 63"
  shows "\<exists>oc. recover_file no_faults ffmpeg (container bxs h (avcc us @ lb @ rest)) = Some oc \<and>
              ended oc = Extracted (SuspiciousLength (be_uint lb)) \<and>
              writes oc = annexb (SPS # PPS # us) \<and> muxed oc \<and>
              (ffmpeg (concat (annexb (SPS # PPS # us))) = Exit 0 \<longrightarrow> result oc = Returned True)"
proof -
  let ?bs = "container bxs h (avcc us @ lb @ rest)"
  from with_block_container [OF sk h small] obtain s
    where at: "drop (in_pos s) ?bs = avcc us @ (lb @ rest)"
      and o: "out_log s = [START_CODE, SPS, START_CODE, PPS]"
      and wb: "with_block no_faults ?bs =
                 Some (Extracted (fst (extract_nals no_faults ?bs s)), snd (extract_nals no_faults ?bs s))"
    by blast
  let ?s1 = "s\<lparr>in_pos := in_pos s + length (avcc us), out_log := out_log s @ annexb us,
                io_calls := io_calls s + 4 * length us\<rparr>"
  from extract_valid_units [OF at v] have ex: "extract_nals no_faults ?bs s = extract_nals no_faults ?bs ?s1" .
  from drop_add_at [OF at] have at1: "drop (in_pos ?s1) ?bs = lb @ rest"
    by simp
  from extract_suspicious [OF at1 l bad]
  have why: "fst (extract_nals no_faults ?bs s) = SuspiciousLength (be_uint lb)"
    and out: "out_log (snd (extract_nals no_faults ?bs s)) = annexb (SPS # PPS # us)"
    by (simp_all add: ex o annexb_Cons)
  from recover_file_extracted [OF wb, of ffmpeg] why out show ?thesis
    by (simp add: run_mux_def)
qed

theorem suspicious_length_stops_witness:
  "list_all skippable [LargeBox [0x66, 0x72, 0x65, 0x65] [0x01, 0x02]] \<and>
   payload_header [0, 0, 0, 0, 0x6d, 0x64, 0x61, 0x74] \<and>
   list_all valid_unit [[1, 2, 3, 4, 5]] \<and>
   length [0, 0, 0, 0 :: byte] = 4 \<and>
   (be_uint [0, 0, 0, 0] = 0 \<or> 20000000 < be_uint [0, 0, 0, 0]) \<and>
   (\<exists>oc. recover_file no_faults (\<lambda>x. Exit 0)
           (container [LargeBox [0x66, 0x72, 0x65, 0x65] [0x01, 0x02]]
              [0, 0, 0, 0, 0x6d, 0x64, 0x61, 0x74]
              (avcc [[1, 2, 3, 4, 5]] @ [0, 0, 0, 0] @ [9, 9])) = Some oc \<and>
         ended oc = Extracted (SuspiciousLength (be_uint [0, 0, 0, 0])) \<and>
         writes oc = annexb [SPS, PPS, [1, 2, 3, 4, 5]] \<and> muxed oc \<and>
         result oc = Returned True)"
proof -
  have h1: "list_all skippable [LargeBox [0x66, 0x72, 0x65, 0x65] [0x01, 0x02]]"
    by (simp add: decode_ascii_ignore_def mdat_def)
  have h2: "payload_header [0, 0, 0, 0, 0x6d, 0x64, 0x61, 0x74]"
    by (simp add: payload_header_def mdat_def be_uint_def)
  have h3: "list_all valid_unit [[1, 2, 3, 4, 5]]"
    by (simp add: valid_unit_def)
  have h4: "length [0, 0, 0, 0 :: byte] = 4"
    by simp
  have h5: "be_uint [0, 0, 0, 0] = 0 \<or> 20000000 < be_uint [0, 0, 0, 0]"
    by (simp add: be_uint_def)
  have h6: "length (container [LargeBox [0x66, 0x72, 0x65, 0x65] [0x01, 0x02]]
              [0, 0, 0, 0, 0x6d, 0x64, 0x61, 0x74]
              (avcc [[1, 2, 3, 4, 5]] @ [0, 0, 0, 0] @ [9, 9])) < 2 ^ 63"
    by (simp add: container_def avcc_def frame_def)
  from suspicious_length_stops [OF h1 h2 h3 h4 h5 h6, of "\<lambda>x. Exit 0"] h1 h2 h3 h4 h5
  show ?thesis by simp
qed

text \<open>
  Claim C3. After some valid records comes a length field that declares more bytes than
  the file still has. Nothing of that last unit is written: the intermediate stream
  holds the two parameter units and the complete units only, and extraction stops (on
  the sanity check when the declared length is above the ceiling, on the short read
  otherwise).
\<close>

theorem truncated_unit_dropped:
  assumes sk: "list_all skippable bxs" and h: "payload_header h"
    and v: "list_all valid_unit us"
    and l: "length lb = 4" and short: "length rest < be_uint lb"
    and small: "length (container bxs h (avcc us @ lb @ rest)) < 2 ^ 63"
  shows "\<exists>oc. recover_file no_faults ffmpeg (container bxs h (avcc us @ lb @ rest)) = Some oc \<and>
              ended oc = Extracted (if 20000000 < be_uint lb then SuspiciousLength (be_uint lb)
                                    else UnexpectedEOF) \<and>
              writes oc = annexb (SPS # PPS # us) \<and> muxed oc"
proof -
  let ?bs = "container bxs h (avcc us @ lb @ rest)"
  from with_block_container [OF sk h small] obtain s
    where at: "drop (in_pos s) ?bs = avcc us @ (lb @ rest)"
      and o: "out_log s = [START_CODE, SPS, START_CODE, PPS]"
      and wb: "with_block no_faults ?bs =
                 Some (Extracted (fst (extract_nals no_faults ?bs s)), snd (extract_nals no_faults ?bs s))"
    by blast
  let ?s1 = "s\<lparr>in_pos := in_pos s + length (avcc us), out_log := out_log s @ annexb us,
                io_calls := io_calls s + 4 * length us\<rparr>"
  from extract_valid_units [OF at v] have ex: "extract_nals no_faults ?bs s = extract_nals no_faults ?bs ?s1" .
  from drop_add_at [OF at] have at1: "drop (in_pos ?s1) ?bs = lb @ rest"
    by simp
  have "fst (extract_nals no_faults ?bs ?s1) =
          (if 20000000 < be_uint lb then SuspiciousLength (be_uint lb) else UnexpectedEOF) \<and>
        out_log (snd (extract_nals no_faults ?bs ?s1)) = out_log ?s1"
  proof (cases "20000000 < be_uint lb")
    case True
    then have "be_uint lb = 0 \<or> 20000000 < be_uint lb" by simp
    from extract_suspicious [OF at1 l this] True show ?thesis by simp
  next
    case False
    with short have "0 < be_uint lb" "be_uint lb \<le> 20000000" by simp_all
    from extract_truncated [OF at1 l this short] False show ?thesis by simp
  qed
  then have why: "fst (extract_nals no_faults ?bs s) =
          (if 20000000 < be_uint lb then SuspiciousLength (be_uint lb) else UnexpectedEOF)"
    and out: "out_log (snd (extract_nals no_faults ?bs s)) = annexb (SPS # PPS # us)"
    by (simp_all add: ex o annexb_Cons)
  from recover_file_extracted [OF wb, of ffmpeg] why out show ?thesis
    by simp
qed

theorem truncated_unit_dropped_witness:
  "list_all skippable [] \<and>
   payload_header [0, 0, 0, 1, 0x6d, 0x64, 0x61, 0x74, 0, 0, 0, 0, 0, 0, 0, 0x20] \<and>
   list_all valid_unit [[1, 2, 3, 4, 5]] \<and>
   length [0, 0, 0, 7 :: byte] = 4 \<and>
   length [1, 2, 3 :: byte] < be_uint [0, 0, 0, 7] \<and>
   (\<exists>oc. recover_file no_faults (\<lambda>x. Exit 0)
           (container [] [0, 0, 0, 1, 0x6d, 0x64, 0x61, 0x74, 0, 0, 0, 0, 0, 0, 0, 0x20]
              (avcc [[1, 2, 3, 4, 5]] @ [0, 0, 0, 7] @ [1, 2, 3])) = Some oc \<and>
         ended oc = Extracted UnexpectedEOF \<and>
         writes oc = annexb [SPS, PPS, [1, 2, 3, 4, 5]] \<and> muxed oc)"
proof -
  have h1: "list_all skippable []"
    by simp
  have h2: "payload_header [0, 0, 0, 1, 0x6d, 0x64, 0x61, 0x74, 0, 0, 0, 0, 0, 0, 0, 0x20]"
    by (simp add: payload_header_def mdat_def be_uint_def)
  have h3: "list_all valid_unit [[1, 2, 3, 4, 5]]"
    by (simp add: valid_unit_def)
  have h4: "length [0, 0, 0, 7 :: byte] = 4"
    by simp
  have h5: "length [1, 2, 3 :: byte] < be_uint [0, 0, 0, 7]"
    by (simp add: be_uint_def)
  have h6: "length (container [] [0, 0, 0, 1, 0x6d, 0x64, 0x61, 0x74, 0, 0, 0, 0, 0, 0, 0, 0x20]
              (avcc [[1, 2, 3, 4, 5]] @ [0, 0, 0, 7] @ [1, 2, 3])) < 2 ^ 63"
    by (simp add: container_def avcc_def frame_def)
  have h7: "\<not> 20000000 < be_uint [0, 0, 0, 7]"
    by (simp add: be_uint_def)
  from truncated_unit_dropped [OF h1 h2 h3 h4 h5 h6, of "\<lambda>x. Exit 0"] h1 h2 h3 h4 h5 h7
  show ?thesis by simp
qed

section \<open>Inputs without a payload box\<close>


section \<open>I/O failures\<close>

text \<open>
  Two runs on the same file, a payload box with one unit: in the first the read of the
  box header fails (call 4, after the four writes of the parameter units), in the second
  the first read of the extraction loop does (call 6, after the header and the offset).
\<close>

lemma run_fault_in_scanner:
  "recover_file (fails_at 4) mux_succeeds [0x00, 0x00, 0x00, 0x08, 0x6d, 0x64, 0x61, 0x74, 0x00, 0x00, 0x00, 0x01, 0xff] =
     Some \<lparr>result = Returned False, ended = Escaped OSError,
           writes = [START_CODE, SPS, START_CODE, PPS], muxed = False, temp_left = False\<rparr>"
  by (simp add: recover_file_def with_block_def session0_def scan.simps scan_step_def
      f_in_read_def f_out_write_def fails_at_def after_with_def finally_clause_def except_outer_def)

lemma run_fault_in_extraction:
  "recover_file (fails_at 6) mux_succeeds [0x00, 0x00, 0x00, 0x08, 0x6d, 0x64, 0x61, 0x74, 0x00, 0x00, 0x00, 0x01, 0xff] =
     Some \<lparr>result = Returned True, ended = Extracted (ExtractionError OSError),
           writes = [START_CODE, SPS, START_CODE, PPS], muxed = True, temp_left = False\<rparr>"
  by (simp add: recover_file_def with_block_def session0_def scan.simps scan_step_def
      process_mdat_def extract_nals.simps unpack_I4s_def be_uint_def decode_ascii_ignore_def
      mdat_def f_in_read_def f_in_tell_def f_out_write_def fails_at_def mux_succeeds_def
      after_with_def run_mux_def finally_clause_def)




section \<open>Skipping boxes\<close>



section \<open>Lengths of the emitted units\<close>

lemma run_one_unit:
  "recover_file no_faults mux_succeeds [0x00, 0x00, 0x00, 0x08, 0x6d, 0x64, 0x61, 0x74, 0x00, 0x00, 0x00, 0x02, 0xaa, 0xbb] =
     Some \<lparr>result = Returned True, ended = Extracted EndOfPayload,
           writes = [START_CODE, SPS, START_CODE, PPS, START_CODE, [0xaa, 0xbb]],
           muxed = True, temp_left = False\<rparr>"
  by (simp add: recover_file_def with_block_def session0_def scan.simps scan_step_def
      process_mdat_def extract_nals.simps unpack_I4s_def unpack_I_def be_uint_def
      decode_ascii_ignore_def mdat_def mux_succeeds_def after_with_def run_mux_def finally_clause_def)



section \<open>Determinism of the intermediate stream\<close>


section \<open>The default output path\<close>

lemma splitext_example: "splitext ''a.b/clip.mp4'' = (''a.b/clip'', ''.mp4'')"
  by (simp add: splitext_def rfind_def Let_def)



section \<open>Termination of the scanner\<close>


end
